theory Spec2Isabelle
  imports Main "HOL-Library.Sublist"
begin

section \<open>Python strings\<close>

text \<open>
  A Python \<open>str\<close> is modelled as a \<open>string\<close>, one \<open>char\<close> per code point, for the code
  points below 256. The character classes are Python's on that range:
  \<open>str.isspace\<close> (used by \<open>strip\<close>, \<open>rstrip\<close> and the regular expression \<open>\s\<close>),
  the word characters of \<open>\w\<close> and the decimal digits of \<open>\d\<close>.
\<close>

definition nl :: char where
  "nl = CHR 0x0A"

definition is_space :: "char \<Rightarrow> bool" where
  "is_space c = (c \<in> set [CHR 0x09, CHR 0x0A, CHR 0x0B, CHR 0x0C, CHR 0x0D,
     CHR 0x1C, CHR 0x1D, CHR 0x1E, CHR 0x1F, CHR 0x20, CHR 0x85, CHR 0xA0])"

definition is_digit :: "char \<Rightarrow> bool" where
  "is_digit c = (let n = (of_char c :: nat) in 48 \<le> n \<and> n \<le> 57)"

definition is_word :: "char \<Rightarrow> bool" where
  "is_word c = (let n = (of_char c :: nat) in
     (48 \<le> n \<and> n \<le> 57) \<or> (65 \<le> n \<and> n \<le> 90) \<or> n = 95 \<or> (97 \<le> n \<and> n \<le> 122) \<or>
     n = 170 \<or> n = 178 \<or> n = 179 \<or> n = 181 \<or> n = 185 \<or> n = 186 \<or>
     n = 188 \<or> n = 189 \<or> n = 190 \<or>
     (192 \<le> n \<and> n \<le> 214) \<or> (216 \<le> n \<and> n \<le> 246) \<or> 248 \<le> n)"

text \<open>\<open>s.rstrip()\<close>, \<open>s.strip()\<close> and \<open>s.rstrip('\n')\<close>.\<close>

definition rstrip :: "string \<Rightarrow> string" where
  "rstrip s = rev (dropWhile is_space (rev s))"

definition strip :: "string \<Rightarrow> string" where
  "strip s = dropWhile is_space (rstrip s)"

definition rstrip_nl :: "string \<Rightarrow> string" where
  "rstrip_nl s = rev (dropWhile (\<lambda>c. c = nl) (rev s))"

text \<open>\<open>s.startswith(p)\<close> and \<open>s.endswith(p)\<close>.\<close>

definition startswith :: "string \<Rightarrow> string \<Rightarrow> bool" where
  "startswith s p = (take (length p) s = p)"

definition endswith :: "string \<Rightarrow> string \<Rightarrow> bool" where
  "endswith s p = startswith (rev s) (rev p)"

text \<open>
  \<open>s.split('\n')\<close>: the pieces between the newlines, always at least one piece.
  \<open>split_acc cur s\<close> carries the piece read so far.
\<close>

fun split_acc :: "string \<Rightarrow> string \<Rightarrow> string list" where
  "split_acc cur [] = [cur]"
| "split_acc cur (c # cs) =
     (if c = nl then cur # split_acc [] cs else split_acc (cur @ [c]) cs)"

definition split_nl :: "string \<Rightarrow> string list" where
  "split_nl s = split_acc [] s"

text \<open>\<open>'\n'.join(xs)\<close>.\<close>

fun join_nl :: "string list \<Rightarrow> string" where
  "join_nl [] = []"
| "join_nl [x] = x"
| "join_nl (x # y # r) = x @ nl # join_nl (y # r)"

section \<open>Regular expressions as backtracking matchers\<close>

text \<open>
  A pattern of Python's \<open>re\<close> module is embedded as the function that lists, in the order in
  which the backtracking engine tries them, every way the pattern can match at the start of
  a string: the text consumed (or the captured groups) and the rest of the string. The first
  element of the list is the match \<open>re.match\<close> returns.
\<close>

type_synonym rx = "string \<Rightarrow> (string \<times> string) list"

text \<open>A literal text.\<close>

definition rx_lit :: "string \<Rightarrow> rx" where
  "rx_lit l s = (if startswith s l then [(l, drop (length l) s)] else [])"

text \<open>\<open>c+\<close>, \<open>c*\<close> (greedy: longest first) and \<open>c+?\<close> (lazy: shortest first) for a
  character class \<open>c\<close>.\<close>

definition rx_plus :: "(char \<Rightarrow> bool) \<Rightarrow> rx" where
  "rx_plus P s = map (\<lambda>k. (take k s, drop k s)) (rev [1..<Suc (length (takeWhile P s))])"

definition rx_star :: "(char \<Rightarrow> bool) \<Rightarrow> rx" where
  "rx_star P s = map (\<lambda>k. (take k s, drop k s)) (rev [0..<Suc (length (takeWhile P s))])"

definition rx_lazy_plus :: "(char \<Rightarrow> bool) \<Rightarrow> rx" where
  "rx_lazy_plus P s = map (\<lambda>k. (take k s, drop k s)) [1..<Suc (length (takeWhile P s))]"

text \<open>
  Sequencing that keeps what each part matched (two capture groups in a row), and plain
  concatenation \<open>ab\<close>.
\<close>

definition rx_then :: "(string \<Rightarrow> ('a \<times> string) list) \<Rightarrow> (string \<Rightarrow> ('b \<times> string) list)
    \<Rightarrow> string \<Rightarrow> (('a \<times> 'b) \<times> string) list" where
  "rx_then a b s = concat (map (\<lambda>(x, r). map (\<lambda>(y, r'). ((x, y), r')) (b r)) (a s))"

definition rx_seq :: "rx \<Rightarrow> rx \<Rightarrow> rx" where
  "rx_seq a b s = map (\<lambda>((x, y), r). (x @ y, r)) (rx_then a b s)"

text \<open>\<open>a?\<close> (greedy), \<open>a|b\<close>, \<open>$\<close> without \<open>re.MULTILINE\<close>, and a negative lookahead
  \<open>(?![...])\<close> on one character.\<close>

definition rx_opt :: "rx \<Rightarrow> rx" where
  "rx_opt a s = a s @ [([], s)]"

definition rx_alt :: "rx \<Rightarrow> rx \<Rightarrow> rx" where
  "rx_alt a b s = a s @ b s"

definition rx_eos :: rx where
  "rx_eos s = (if s = [] \<or> s = [nl] then [([], s)] else [])"

definition rx_not_ahead :: "(char \<Rightarrow> bool) \<Rightarrow> rx" where
  "rx_not_ahead P s = (case s of [] \<Rightarrow> [([], s)] | c # _ \<Rightarrow> if P c then [] else [([], s)])"

text \<open>\<open>re.match(pattern, s)\<close>: the groups of the first match, or \<open>None\<close>.\<close>

definition re_match :: "(string \<Rightarrow> ('g \<times> string) list) \<Rightarrow> string \<Rightarrow> 'g option" where
  "re_match p s = (case p s of [] \<Rightarrow> None | (g, _) # _ \<Rightarrow> Some g)"


section \<open>fix-ansible-yaml.py\<close>

definition FQCN_MAPPINGS :: "(string \<times> string) list" where
  "FQCN_MAPPINGS = [
     (''apt'', ''ansible.builtin.apt''),
     (''copy'', ''ansible.builtin.copy''),
     (''fetch'', ''ansible.builtin.fetch''),
     (''file'', ''ansible.builtin.file''),
     (''get_url'', ''ansible.builtin.get_url''),
     (''lineinfile'', ''ansible.builtin.lineinfile''),
     (''replace'', ''ansible.builtin.replace''),
     (''shell'', ''ansible.builtin.shell''),
     (''systemd'', ''ansible.builtin.systemd''),
     (''template'', ''ansible.builtin.template''),
     (''wait_for'', ''ansible.builtin.wait_for''),
     (''modprobe'', ''community.general.modprobe''),
     (''sysctl'', ''ansible.posix.sysctl''),
     (''timezone'', ''community.general.timezone''),
     (''ufw'', ''community.general.ufw'')]"

definition TRUTHY_MAPPINGS :: "(string \<times> string) list" where
  "TRUTHY_MAPPINGS = [
     (''yes'', ''true''),
     (''no'', ''false''),
     (''Yes'', ''true''),
     (''No'', ''false''),
     (''YES'', ''true''),
     (''NO'', ''false'')]"

text \<open>
  The pattern of \<open>fix_fqcn\<close>, \<open>^(\s+(?:-\s+)?)(short_name:)\<close>, with its two groups.
\<close>

definition fqcn_pattern :: "string \<Rightarrow> string \<Rightarrow> ((string \<times> string) \<times> string) list" where
  "fqcn_pattern short_name =
     rx_then (rx_seq (rx_plus is_space) (rx_opt (rx_seq (rx_lit ''-'') (rx_plus is_space))))
             (rx_lit (short_name @ '':''))"

text \<open>
  The inner loop of \<open>fix_fqcn\<close> over the table, for one line: every pattern is matched
  against the line as it was read, and a match overwrites \<open>lines[i]\<close> with the indent, the
  qualified name and a colon. The state is \<open>lines[i]\<close> and the flag \<open>modified\<close>.
\<close>

fun fqcn_inner :: "(string \<times> string) list \<Rightarrow> string \<Rightarrow> string \<times> bool \<Rightarrow> string \<times> bool" where
  "fqcn_inner [] line st = st"
| "fqcn_inner ((short_name, fqcn) # ms) line st =
     (case re_match (fqcn_pattern short_name) line of
        Some (indent, key) \<Rightarrow> fqcn_inner ms line (indent @ fqcn @ '':'', True)
      | None \<Rightarrow> fqcn_inner ms line st)"

fun fqcn_lines :: "string list \<Rightarrow> bool \<Rightarrow> string list \<times> bool" where
  "fqcn_lines [] modified = ([], modified)"
| "fqcn_lines (line # rest) modified =
     (let (line', modified') = fqcn_inner FQCN_MAPPINGS line (line, modified);
          (rest', modified'') = fqcn_lines rest modified'
      in (line' # rest', modified''))"

definition fix_fqcn :: "string \<Rightarrow> string \<times> bool" where
  "fix_fqcn content =
     (let (lines, modified) = fqcn_lines (split_nl content) False
      in (join_nl lines, modified))"

text \<open>
  The pattern of \<open>fix_truthy_values\<close>, \<open>^(\s+\w+:\s+)(old_val)(\s*(?:#.*)?$)\<close>, with its
  three groups.
\<close>

definition truthy_pattern :: "string \<Rightarrow> string \<Rightarrow> ((string \<times> string \<times> string) \<times> string) list" where
  "truthy_pattern old_val =
     rx_then (rx_seq (rx_plus is_space) (rx_seq (rx_plus is_word)
                (rx_seq (rx_lit '':'') (rx_plus is_space))))
       (rx_then (rx_lit old_val)
          (rx_seq (rx_star is_space)
             (rx_seq (rx_opt (rx_seq (rx_lit ''#'') (rx_star (\<lambda>c. c \<noteq> nl)))) rx_eos)))"

fun truthy_inner :: "(string \<times> string) list \<Rightarrow> string \<Rightarrow> string \<times> bool \<Rightarrow> string \<times> bool" where
  "truthy_inner [] line st = st"
| "truthy_inner ((old_val, new_val) # ms) line st =
     (case re_match (truthy_pattern old_val) line of
        Some (before, val, after) \<Rightarrow> truthy_inner ms line (before @ new_val @ after, True)
      | None \<Rightarrow> truthy_inner ms line st)"

fun truthy_lines :: "string list \<Rightarrow> bool \<Rightarrow> string list \<times> bool" where
  "truthy_lines [] modified = ([], modified)"
| "truthy_lines (line # rest) modified =
     (let (line', modified') = truthy_inner TRUTHY_MAPPINGS line (line, modified);
          (rest', modified'') = truthy_lines rest modified'
      in (line' # rest', modified''))"

definition fix_truthy_values :: "string \<Rightarrow> string \<times> bool" where
  "fix_truthy_values content =
     (let (lines, modified) = truthy_lines (split_nl content) False
      in (join_nl lines, modified))"



section \<open>fix-jinja2-spacing.py\<close>




section \<open>fix-markdown.py\<close>

text \<open>
  The loop of \<open>fix_blank_lines_around_headings\<close>. The arguments are the previous line
  (\<open>None\<close> at \<open>i = 0\<close>), the lines from \<open>lines[i]\<close> on, and \<open>result\<close>; so
  \<open>i > 0\<close> reads \<open>prev \<noteq> None\<close> and \<open>i < len(lines)-1\<close> reads \<open>rest \<noteq> []\<close>.
  \<open>headings_step\<close> is the body of the loop: the new \<open>result\<close>.
\<close>

definition headings_step :: "string option \<Rightarrow> string \<Rightarrow> string list \<Rightarrow> string list \<Rightarrow> string list" where
  "headings_step prev line rest result =
     (let is_heading = (startswith (strip line) ''#'' \<and> CHR '' '' \<in> set line);
          prev_line = (case prev of None \<Rightarrow> [] | Some p \<Rightarrow> p);
          next_line = (case rest of [] \<Rightarrow> [] | n # _ \<Rightarrow> n);
          result1 =
            (if is_heading \<and> prev \<noteq> None \<and> strip prev_line \<noteq> []
                \<and> startswith (strip prev_line) ''#'' = False
             then (if result \<noteq> [] \<and> last result \<noteq> [] then result @ [[]] else result)
             else result);
          result2 = result1 @ [line]
      in if is_heading \<and> rest \<noteq> [] \<and> strip next_line \<noteq> []
            \<and> \<not> startswith (strip next_line) ''#''
         then (if strip next_line \<noteq> [] \<and> \<not> startswith next_line ''```''
               then result2 @ [[]] else result2)
         else result2)"

fun headings_loop :: "string option \<Rightarrow> string list \<Rightarrow> string list \<Rightarrow> string list" where
  "headings_loop prev [] result = result"
| "headings_loop prev (line # rest) result =
     headings_loop (Some line) rest (headings_step prev line rest result)"

definition fix_blank_lines_around_headings :: "string \<Rightarrow> string" where
  "fix_blank_lines_around_headings content = join_nl (headings_loop None (split_nl content) [])"

text \<open>
  The loop of \<open>fix_blank_lines_around_fences\<close>, with the flag \<open>in_fence\<close>;
  \<open>fences_step\<close> is its body: the new flag and the new \<open>result\<close>.
\<close>

definition fences_step ::
    "string option \<Rightarrow> bool \<Rightarrow> string \<Rightarrow> string list \<Rightarrow> string list \<Rightarrow> bool \<times> string list" where
  "fences_step prev in_fence line rest result =
     (let is_fence = startswith (strip line) ''```'';
          prev_line = (case prev of None \<Rightarrow> [] | Some p \<Rightarrow> p);
          next_line = (case rest of [] \<Rightarrow> [] | n # _ \<Rightarrow> n)
      in if is_fence then
           (if \<not> in_fence then
              (let result1 =
                     (if prev \<noteq> None \<and> strip prev_line \<noteq> []
                      then (if result \<noteq> [] \<and> last result \<noteq> [] then result @ [[]] else result)
                      else result)
               in (True, result1 @ [line]))
            else
              (let result1 = result @ [line]
               in (False, if rest \<noteq> [] \<and> strip next_line \<noteq> [] then result1 @ [[]]
                          else result1)))
         else (in_fence, result @ [line]))"

fun fences_loop :: "string option \<Rightarrow> bool \<Rightarrow> string list \<Rightarrow> string list \<Rightarrow> string list" where
  "fences_loop prev in_fence [] result = result"
| "fences_loop prev in_fence (line # rest) result =
     (case fences_step prev in_fence line rest result of
        (in_fence', result') \<Rightarrow> fences_loop (Some line) in_fence' rest result')"

definition fix_blank_lines_around_fences :: "string \<Rightarrow> string" where
  "fix_blank_lines_around_fences content =
     join_nl (fences_loop None False (split_nl content) [])"

text \<open>
  \<open>list_pattern\<close>, \<open>^(\s*)[-*]|\d+\.\s\<close>: the alternation is at the top level, and
  \<open>match\<close> anchors both branches at the start of the line.
\<close>

definition rx_chr :: "(char \<Rightarrow> bool) \<Rightarrow> rx" where
  "rx_chr P s = (case s of [] \<Rightarrow> [] | c # r \<Rightarrow> if P c then [([c], r)] else [])"

definition list_pattern :: rx where
  "list_pattern =
     rx_alt (rx_seq (rx_star is_space) (rx_chr (\<lambda>c. c = CHR ''-'' \<or> c = CHR ''*'')))
            (rx_seq (rx_plus is_digit) (rx_seq (rx_lit ''.'') (rx_chr is_space)))"

definition is_list_line :: "string \<Rightarrow> bool" where
  "is_list_line line = (re_match list_pattern line \<noteq> None)"

text \<open>
  The loop of \<open>fix_blank_lines_around_lists\<close>, with the flag \<open>in_list\<close>;
  \<open>lists_step\<close> is its body: the new flag and the new \<open>result\<close>.
\<close>

definition lists_step ::
    "string option \<Rightarrow> bool \<Rightarrow> string \<Rightarrow> string list \<Rightarrow> bool \<times> string list" where
  "lists_step prev in_list line result =
     (let is_list = is_list_line line;
          prev_line = (case prev of None \<Rightarrow> [] | Some p \<Rightarrow> p)
      in if is_list \<and> \<not> in_list then
           (let result1 =
                  (if prev \<noteq> None \<and> strip prev_line \<noteq> [] \<and> \<not> is_list_line prev_line
                   then (if result \<noteq> [] \<and> last result \<noteq> [] then result @ [[]] else result)
                   else result)
            in (True, result1 @ [line]))
         else if \<not> is_list \<and> in_list then
           (let result1 =
                  (if strip line \<noteq> []
                   then (if result \<noteq> [] \<and> last result \<noteq> [] then result @ [[]] else result)
                   else result)
            in (False, result1 @ [line]))
         else (in_list, result @ [line]))"

fun lists_loop :: "string option \<Rightarrow> bool \<Rightarrow> string list \<Rightarrow> string list \<Rightarrow> string list" where
  "lists_loop prev in_list [] result = result"
| "lists_loop prev in_list (line # rest) result =
     (case lists_step prev in_list line result of
        (in_list', result') \<Rightarrow> lists_loop (Some line) in_list' rest result')"

definition fix_blank_lines_around_lists :: "string \<Rightarrow> string" where
  "fix_blank_lines_around_lists content =
     join_nl (lists_loop None False (split_nl content) [])"

definition fix_trailing_spaces :: "string \<Rightarrow> string" where
  "fix_trailing_spaces content = join_nl (map rstrip (split_nl content))"

definition fix_eof_newline :: "string \<Rightarrow> string" where
  "fix_eof_newline content = rstrip_nl content @ [nl]"

text \<open>
  The fixes \<open>process_markdown_file\<close> applies, in its order, and the function itself on a
  store of file texts: \<open>None\<close> when the file cannot be read; otherwise the new store (the
  backup and the rewritten file when the text changed) and whether it changed.
\<close>

definition apply_fixes :: "string \<Rightarrow> string" where
  "apply_fixes content =
     fix_eof_newline
       (fix_blank_lines_around_lists
          (fix_blank_lines_around_fences
             (fix_blank_lines_around_headings
                (fix_trailing_spaces content))))"

definition process_markdown_file ::
    "(string \<rightharpoonup> string) \<Rightarrow> string \<Rightarrow> ((string \<rightharpoonup> string) \<times> bool) option" where
  "process_markdown_file files filepath =
     (case files filepath of
        None \<Rightarrow> None
      | Some original \<Rightarrow>
          (let content = apply_fixes original
           in if content \<noteq> original
              then Some (files(filepath @ ''.bak'' \<mapsto> original, filepath \<mapsto> content), True)
              else Some (files, False)))"

section \<open>fix-markdown-v2.py\<close>

text \<open>
  The end-of-file statement of \<open>process_file\<close>, \<open>content = content.rstrip() + '\n'\<close>, and
  the removal of trailing spaces from every line that follows it.
\<close>

definition v2_fix_eof :: "string \<Rightarrow> string" where
  "v2_fix_eof content = rstrip content @ [nl]"

definition v2_fix_eof_and_trailing :: "string \<Rightarrow> string" where
  "v2_fix_eof_and_trailing content = join_nl (map rstrip (split_nl (v2_fix_eof content)))"

section \<open>check-markdown.py\<close>

text \<open>
  An issue carries what its message is formatted from; \<open>issue_text\<close> is the message.
\<close>

datatype issue =
    MD040 nat
  | MD031_before nat
  | MD031_after nat
  | MD022_before nat
  | MD022_after nat
  | MD009 nat nat
  | MD013 nat nat
  | MD034 nat string
  | MD047_multiple
  | MD047_missing

fun str_nat :: "nat \<Rightarrow> string" where
  "str_nat n =
     (if n < 10 then [char_of (48 + n)] else str_nat (n div 10) @ [char_of (48 + n mod 10)])"

declare str_nat.simps [simp del]

fun issue_text :: "issue \<Rightarrow> string" where
  "issue_text (MD040 i) = ''Line '' @ str_nat i @ '': MD040 - Code fence without language''"
| "issue_text (MD031_before i) =
     ''Line '' @ str_nat i @ '': MD031 - Missing blank line before code fence''"
| "issue_text (MD031_after i) =
     ''Line '' @ str_nat i @ '': MD031 - Missing blank line after code fence''"
| "issue_text (MD022_before i) =
     ''Line '' @ str_nat i @ '': MD022 - Missing blank line before heading''"
| "issue_text (MD022_after i) =
     ''Line '' @ str_nat i @ '': MD022 - Missing blank line after heading''"
| "issue_text (MD009 i spaces) =
     ''Line '' @ str_nat i @ '': MD009 - Trailing spaces ('' @ str_nat spaces @ '')''"
| "issue_text (MD013 i n) =
     ''Line '' @ str_nat i @ '': MD013 - Line too long ('' @ str_nat n @ '' > 120)''"
| "issue_text (MD034 i url) =
     ''Line '' @ str_nat i @ '': MD034 - Bare URL: '' @ take 50 url @ ''...''"
| "issue_text MD047_multiple = ''EOF: MD047 - Multiple trailing newlines''"
| "issue_text MD047_missing = ''EOF: MD047 - Missing trailing newline''"

text \<open>\<open>f.readlines()\<close>: the lines of the text, each with its newline.\<close>

fun readlines_acc :: "string \<Rightarrow> string \<Rightarrow> string list" where
  "readlines_acc cur [] = (if cur = [] then [] else [cur])"
| "readlines_acc cur (c # cs) =
     (if c = nl then (cur @ [c]) # readlines_acc [] cs else readlines_acc (cur @ [c]) cs)"

definition readlines :: "string \<Rightarrow> string list" where
  "readlines content = readlines_acc [] content"

text \<open>
  The bare-URL search, \<open>re.findall(r'(?<![(<])(https?://[^\s\)>]+)(?![>)])', line)\<close>:
  \<open>url_pattern\<close> is the pattern without its lookbehind, which \<open>findall_urls\<close> checks on
  the character before the position it tries (\<open>None\<close> at the start of the line).
\<close>

definition url_pattern :: rx where
  "url_pattern =
     rx_seq (rx_lit ''http'')
       (rx_seq (rx_opt (rx_lit ''s''))
          (rx_seq (rx_lit ''://'')
             (rx_seq (rx_plus (\<lambda>c. \<not> is_space c \<and> c \<noteq> CHR '')'' \<and> c \<noteq> CHR ''>''))
                (rx_not_ahead (\<lambda>c. c = CHR ''>'' \<or> c = CHR '')'')))))"

function findall_urls :: "char option \<Rightarrow> string \<Rightarrow> string list" where
  "findall_urls behind [] = []"
| "findall_urls behind (c # cs) =
     (if behind = Some (CHR ''('') \<or> behind = Some (CHR ''<'') then findall_urls (Some c) cs
      else case url_pattern (c # cs) of
             [] \<Rightarrow> findall_urls (Some c) cs
           | (url, rest) # _ \<Rightarrow>
               if url \<noteq> [] \<and> length rest \<le> length cs
               then url # findall_urls (Some (last url)) rest
               else findall_urls (Some c) cs)"
  by pat_completeness auto
termination
  by (relation "measure (\<lambda>(behind, s). length s)") auto

text \<open>
  The loop of \<open>check_file\<close> over \<open>enumerate(lines, 1)\<close>: \<open>i\<close> is the line number, and
  \<open>i < len(lines)\<close> reads \<open>rest \<noteq> []\<close>, where \<open>lines[i]\<close> is the head of \<open>rest\<close>.
  \<open>check_step\<close> is the body of the loop: the new \<open>in_code_block\<close> and the new \<open>issues\<close>;
  the new \<open>prev_line\<close> is \<open>line.rstrip('\n')\<close>.
\<close>

definition check_step ::
    "nat \<Rightarrow> bool \<Rightarrow> string \<Rightarrow> string \<Rightarrow> string list \<Rightarrow> issue list \<Rightarrow> bool \<times> issue list" where
  "check_step i in_code_block prev_line line rest issues =
     (let line_rstrip = rstrip_nl line;
          next_line = (case rest of [] \<Rightarrow> [] | n # _ \<Rightarrow> n);
          is_fence = startswith line_rstrip ''```'';
          in_code_block1 = (if is_fence then \<not> in_code_block else in_code_block);
          issues1 =
            (if is_fence \<and> \<not> in_code_block1 \<and> line_rstrip = ''```''
             then issues @ [MD040 i] else issues);
          issues2 =
            (if is_fence \<and> \<not> in_code_block1 \<and> strip prev_line \<noteq> []
                \<and> i > 1 \<and> \<not> startswith prev_line ''#''
             then issues1 @ [MD031_before i] else issues1);
          issues3 =
            (if is_fence \<and> in_code_block1 \<and> rest \<noteq> [] \<and> strip next_line \<noteq> []
             then issues2 @ [MD031_after i] else issues2);
          is_heading = (startswith line_rstrip ''#'' \<and> CHR '' '' \<in> set line_rstrip);
          issues4 =
            (if is_heading \<and> i > 1 \<and> strip prev_line \<noteq> []
             then issues3 @ [MD022_before i] else issues3);
          issues5 =
            (if is_heading \<and> rest \<noteq> [] \<and> strip next_line \<noteq> []
                \<and> \<not> startswith next_line ''#''
             then issues4 @ [MD022_after i] else issues4);
          spaces = length line_rstrip - length (rstrip line_rstrip);
          issues6 =
            (if line_rstrip \<noteq> rstrip line_rstrip \<and> spaces \<noteq> 2
             then issues5 @ [MD009 i spaces] else issues5);
          issues7 =
            (if length line_rstrip > 120 \<and> \<not> in_code_block1
                \<and> \<not> startswith line_rstrip ''http''
             then issues6 @ [MD013 i (length line_rstrip)] else issues6);
          issues8 =
            (if \<not> in_code_block1 then issues7 @ map (MD034 i) (findall_urls None line)
             else issues7)
      in (in_code_block1, issues8))"

fun check_loop :: "nat \<Rightarrow> bool \<Rightarrow> string \<Rightarrow> string list \<Rightarrow> issue list \<Rightarrow> issue list" where
  "check_loop i in_code_block prev_line [] issues = issues"
| "check_loop i in_code_block prev_line (line # rest) issues =
     (case check_step i in_code_block prev_line line rest issues of
        (in_code_block', issues') \<Rightarrow>
          check_loop (Suc i) in_code_block' (rstrip_nl line) rest issues')"

definition check_issues :: "string list \<Rightarrow> issue list" where
  "check_issues lines =
     (let issues = check_loop 1 False [] lines []
      in if lines \<noteq> [] \<and> endswith (last lines) [nl, nl] then issues @ [MD047_multiple]
         else if lines \<noteq> [] \<and> \<not> endswith (last lines) [nl] then issues @ [MD047_missing]
         else issues)"

definition check_file :: "string \<Rightarrow> string list" where
  "check_file content = map issue_text (check_issues (readlines content))"

section \<open>Auxiliary notions for the proofs\<close>

text \<open>
  A matcher is consuming when the text it reports and the rest it leaves make up the string
  it was given. \<open>fqcn_line\<close> and \<open>truthy_line\<close> are what the two inner loops make of
  one line.
\<close>

definition consuming :: "rx \<Rightarrow> bool" where
  "consuming a = (\<forall>s c r. (c, r) \<in> set (a s) \<longrightarrow> s = c @ r)"

definition fqcn_line :: "string \<Rightarrow> string" where
  "fqcn_line line = fst (fqcn_inner FQCN_MAPPINGS line (line, False))"

definition truthy_line :: "string \<Rightarrow> string" where
  "truthy_line line = fst (truthy_inner TRUTHY_MAPPINGS line (line, False))"

text \<open>
  The three blank-line fixers, seen as one scheme: a blank line goes between two
  neighbouring lines \<open>p\<close> and \<open>y\<close> when \<open>bad s p y\<close> holds, where \<open>s\<close> is the state of the
  scan before \<open>p\<close> and \<open>nxt s p\<close> the state after it. \<open>settled\<close> says that no two neighbours
  are bad, and \<open>blank_insertion xs ys\<close> that \<open>ys\<close> is \<open>xs\<close> with empty lines put in.
\<close>

fun blanks_between ::
    "('s \<Rightarrow> string \<Rightarrow> string \<Rightarrow> bool) \<Rightarrow> ('s \<Rightarrow> string \<Rightarrow> 's) \<Rightarrow> 's \<Rightarrow> string \<Rightarrow> string list
     \<Rightarrow> string list" where
  "blanks_between bad nxt s p [] = []"
| "blanks_between bad nxt s p (y # r) =
     (if bad s p y then [[], y] else [y]) @ blanks_between bad nxt (nxt s p) y r"

definition with_blanks ::
    "('s \<Rightarrow> string \<Rightarrow> string \<Rightarrow> bool) \<Rightarrow> ('s \<Rightarrow> string \<Rightarrow> 's) \<Rightarrow> 's \<Rightarrow> string list
     \<Rightarrow> string list" where
  "with_blanks bad nxt s lines =
     (case lines of [] \<Rightarrow> [] | x # r \<Rightarrow> x # blanks_between bad nxt s x r)"

fun settled ::
    "('s \<Rightarrow> string \<Rightarrow> string \<Rightarrow> bool) \<Rightarrow> ('s \<Rightarrow> string \<Rightarrow> 's) \<Rightarrow> 's \<Rightarrow> string \<Rightarrow> string list
     \<Rightarrow> bool" where
  "settled bad nxt s p [] = True"
| "settled bad nxt s p (y # r) = (\<not> bad s p y \<and> settled bad nxt (nxt s p) y r)"

definition settled_lines ::
    "('s \<Rightarrow> string \<Rightarrow> string \<Rightarrow> bool) \<Rightarrow> ('s \<Rightarrow> string \<Rightarrow> 's) \<Rightarrow> 's \<Rightarrow> string list \<Rightarrow> bool" where
  "settled_lines bad nxt s lines =
     (case lines of [] \<Rightarrow> True | x # r \<Rightarrow> settled bad nxt s x r)"

inductive blank_insertion :: "string list \<Rightarrow> string list \<Rightarrow> bool" where
  stop: "blank_insertion [] []"
| keep: "blank_insertion xs ys \<Longrightarrow> blank_insertion (x # xs) (x # ys)"
| blank: "blank_insertion xs ys \<Longrightarrow> blank_insertion xs ([] # ys)"

text \<open>Blank lines never make a pair bad and never change the state.\<close>

definition blank_neutral :: "('s \<Rightarrow> string \<Rightarrow> string \<Rightarrow> bool) \<Rightarrow> ('s \<Rightarrow> string \<Rightarrow> 's) \<Rightarrow> bool" where
  "blank_neutral bad nxt =
     ((\<forall>s x. \<not> bad s x []) \<and> (\<forall>s y. \<not> bad s [] y) \<and> (\<forall>s. nxt s [] = s))"

text \<open>The scheme's parameters for headings, fences and lists.\<close>

definition heading_line :: "string \<Rightarrow> bool" where
  "heading_line l = (startswith (strip l) ''#'' \<and> CHR '' '' \<in> set l)"

definition after_heading :: "string \<Rightarrow> string \<Rightarrow> bool" where
  "after_heading p y =
     (heading_line p \<and> strip y \<noteq> [] \<and> \<not> startswith (strip y) ''#'' \<and> \<not> startswith y ''```'')"

definition bad_headings :: "unit \<Rightarrow> string \<Rightarrow> string \<Rightarrow> bool" where
  "bad_headings u p y =
     (after_heading p y \<or> (heading_line y \<and> strip p \<noteq> [] \<and> \<not> startswith (strip p) ''#''))"

definition fence_line :: "string \<Rightarrow> bool" where
  "fence_line l = startswith (strip l) ''```''"

definition nxt_fences :: "bool \<Rightarrow> string \<Rightarrow> bool" where
  "nxt_fences in_fence p = (if fence_line p then \<not> in_fence else in_fence)"

definition bad_fences :: "bool \<Rightarrow> string \<Rightarrow> string \<Rightarrow> bool" where
  "bad_fences in_fence p y =
     ((fence_line p \<and> in_fence \<and> strip y \<noteq> [])
      \<or> (fence_line y \<and> \<not> nxt_fences in_fence p \<and> strip p \<noteq> []))"

definition bad_lists :: "unit \<Rightarrow> string \<Rightarrow> string \<Rightarrow> bool" where
  "bad_lists u p y =
     ((is_list_line y \<and> \<not> is_list_line p \<and> strip p \<noteq> [])
      \<or> (\<not> is_list_line y \<and> is_list_line p \<and> strip y \<noteq> []))"

definition same_state :: "unit \<Rightarrow> string \<Rightarrow> unit" where
  "same_state u p = u"

text \<open>
  The lines that \<open>fix_eof_newline\<close> leaves of a text given by its lines, and the lines
  that \<open>apply_fixes\<close> makes of the lines of a text.
\<close>

definition drop_blank_tail :: "string list \<Rightarrow> string list" where
  "drop_blank_tail xs = rev (dropWhile (\<lambda>l. l = []) (rev xs))"

definition eof_lines :: "string list \<Rightarrow> string list" where
  "eof_lines xs = (if drop_blank_tail xs = [] then [[], []] else drop_blank_tail xs @ [[]])"

definition fixed_lines :: "string list \<Rightarrow> string list" where
  "fixed_lines xs =
     eof_lines (with_blanks bad_lists same_state ()
       (with_blanks bad_fences nxt_fences False
          (with_blanks bad_headings same_state () (map rstrip xs))))"

text \<open>The lines of a text: at least one, and none with a newline in it.\<close>

definition proper_lines :: "string list \<Rightarrow> bool" where
  "proper_lines xs = (xs \<noteq> [] \<and> (\<forall>x \<in> set xs. nl \<notin> set x))"


text \<open>The number a string of decimal digits stands for.\<close>

definition digits_value :: "string \<Rightarrow> nat" where
  "digits_value s = foldl (\<lambda>a c. 10 * a + (of_char c - 48)) 0 s"

section \<open>Lines and matchers\<close>

subsection \<open>Splitting and joining lines\<close>

lemma split_acc_not_Nil: "split_acc cur s \<noteq> []"
  by (induction s arbitrary: cur) auto

lemma split_nl_not_Nil: "split_nl s \<noteq> []"
  by (simp add: split_nl_def split_acc_not_Nil)

lemma join_nl_Cons: "r \<noteq> [] \<Longrightarrow> join_nl (x # r) = x @ nl # join_nl r"
  by (cases r) auto

lemma join_split_acc: "join_nl (split_acc cur s) = cur @ s"
proof (induction s arbitrary: cur)
  case Nil
  then show ?case by simp
next
  case (Cons c cs)
  then show ?case by (simp add: join_nl_Cons split_acc_not_Nil)
qed

lemma join_split_nl: "join_nl (split_nl s) = s"
  by (simp add: split_nl_def join_split_acc)

lemma split_acc_no_nl:
  "nl \<notin> set cur \<Longrightarrow> l \<in> set (split_acc cur s) \<Longrightarrow> nl \<notin> set l"
proof (induction s arbitrary: cur)
  case Nil
  then show ?case by simp
next
  case (Cons c cs)
  show ?case
  proof (cases "c = nl")
    case True
    with Cons.prems have "l = cur \<or> l \<in> set (split_acc [] cs)" by simp
    then show ?thesis using Cons.prems(1) Cons.IH [of "[]"] by auto
  next
    case False
    with Cons.prems have "l \<in> set (split_acc (cur @ [c]) cs)" by simp
    moreover have "nl \<notin> set (cur @ [c])" using False Cons.prems(1) by simp
    ultimately show ?thesis by (rule Cons.IH [rotated])
  qed
qed

lemma split_nl_no_nl: "l \<in> set (split_nl s) \<Longrightarrow> nl \<notin> set l"
  using split_acc_no_nl [where cur = "[]" and s = s and l = l] by (simp add: split_nl_def)

lemma split_acc_append: "nl \<notin> set x \<Longrightarrow> split_acc cur (x @ s) = split_acc (cur @ x) s"
  by (induction x arbitrary: cur) auto

lemma split_join_acc:
  "\<forall>x \<in> set (y # r). nl \<notin> set x \<Longrightarrow> split_acc cur (join_nl (y # r)) = (cur @ y) # r"
proof (induction r arbitrary: cur y)
  case Nil
  then show ?case using split_acc_append [of y cur "[]"] by simp
next
  case (Cons z r)
  have "split_acc cur (join_nl (y # z # r)) = split_acc (cur @ y) (nl # join_nl (z # r))"
    using Cons.prems split_acc_append [of y cur] by simp
  also have "\<dots> = (cur @ y) # split_acc [] (join_nl (z # r))" by simp
  also have "\<dots> = (cur @ y) # z # r" using Cons.IH [of z "[]"] Cons.prems by simp
  finally show ?case .
qed

lemma split_join_nl:
  "xs \<noteq> [] \<Longrightarrow> \<forall>x \<in> set xs. nl \<notin> set x \<Longrightarrow> split_nl (join_nl xs) = xs"
  using split_join_acc [of "hd xs" "tl xs" "[]"] by (cases xs) (auto simp: split_nl_def)

subsection \<open>What the matchers list\<close>

lemma set_rx_lit: "(c, r) \<in> set (rx_lit l s) \<longleftrightarrow> c = l \<and> s = l @ r"
  by (auto simp: rx_lit_def startswith_def) (metis append_take_drop_id)

lemma takeWhile_prefix_all:
  "k \<le> length (takeWhile P s) \<Longrightarrow> x \<in> set (take k s) \<Longrightarrow> P x"
proof -
  assume k: "k \<le> length (takeWhile P s)" and x: "x \<in> set (take k s)"
  have "take k s = take k (takeWhile P s)"
    using k by (metis takeWhile_dropWhile_id take_append diff_is_0_eq' take_0 append_Nil2)
  with x have "x \<in> set (takeWhile P s)" by (metis in_set_takeD)
  then show "P x" by (rule set_takeWhileD [THEN conjunct2])
qed

lemma all_prefix_takeWhile:
  "\<forall>x \<in> set c. P x \<Longrightarrow> length c \<le> length (takeWhile P (c @ r))"
  by (simp add: takeWhile_append2)

lemma set_rx_plus_image:
  "set (rx_plus P s) = (\<lambda>k. (take k s, drop k s)) ` {k. 1 \<le> k \<and> k \<le> length (takeWhile P s)}"
proof -
  have "set (rev [1..<Suc (length (takeWhile P s))]) = {k. 1 \<le> k \<and> k \<le> length (takeWhile P s)}"
    by (auto simp del: upt_Suc)
  then show ?thesis unfolding rx_plus_def set_map by (rule arg_cong)
qed

lemma set_rx_star_image:
  "set (rx_star P s) = (\<lambda>k. (take k s, drop k s)) ` {k. k \<le> length (takeWhile P s)}"
proof -
  have "set (rev [0..<Suc (length (takeWhile P s))]) = {k. k \<le> length (takeWhile P s)}"
    by (auto simp del: upt_Suc)
  then show ?thesis unfolding rx_star_def set_map by (rule arg_cong)
qed

lemma set_rx_star:
  "(c, r) \<in> set (rx_star P s) \<longleftrightarrow> s = c @ r \<and> (\<forall>x \<in> set c. P x)"
proof
  assume "(c, r) \<in> set (rx_star P s)"
  then obtain k where k: "k \<le> length (takeWhile P s)" "c = take k s" "r = drop k s"
    unfolding set_rx_star_image by blast
  then show "s = c @ r \<and> (\<forall>x \<in> set c. P x)"
    using takeWhile_prefix_all [of k P s] by auto
next
  assume a: "s = c @ r \<and> (\<forall>x \<in> set c. P x)"
  then have "length c \<le> length (takeWhile P s)" using all_prefix_takeWhile by simp
  moreover have "(c, r) = (take (length c) s, drop (length c) s)" using a by simp
  ultimately show "(c, r) \<in> set (rx_star P s)"
    unfolding set_rx_star_image by blast
qed

lemma set_rx_plus:
  "(c, r) \<in> set (rx_plus P s) \<longleftrightarrow> s = c @ r \<and> c \<noteq> [] \<and> (\<forall>x \<in> set c. P x)"
proof
  assume "(c, r) \<in> set (rx_plus P s)"
  then obtain k where k: "1 \<le> k" "k \<le> length (takeWhile P s)" "c = take k s" "r = drop k s"
    unfolding set_rx_plus_image by blast
  have "k \<le> length s" using k(2) length_takeWhile_le [of P s] by simp
  with k(1) have "take k s \<noteq> []" by (cases s) auto
  with k show "s = c @ r \<and> c \<noteq> [] \<and> (\<forall>x \<in> set c. P x)"
    using takeWhile_prefix_all [of k P s] by auto
next
  assume a: "s = c @ r \<and> c \<noteq> [] \<and> (\<forall>x \<in> set c. P x)"
  then have "length c \<le> length (takeWhile P s)" using all_prefix_takeWhile by simp
  moreover have "1 \<le> length c" using a by (cases c) auto
  moreover have "(c, r) = (take (length c) s, drop (length c) s)" using a by simp
  ultimately show "(c, r) \<in> set (rx_plus P s)"
    unfolding set_rx_plus_image by blast
qed

lemma set_rx_lazy_plus:
  "(c, r) \<in> set (rx_lazy_plus P s) \<longleftrightarrow> (c, r) \<in> set (rx_plus P s)"
  by (simp add: rx_lazy_plus_def rx_plus_def del: upt_Suc)

lemma set_rx_then:
  "((x, y), r) \<in> set (rx_then a b s) \<longleftrightarrow> (\<exists>m. (x, m) \<in> set (a s) \<and> (y, r) \<in> set (b m))"
  by (fastforce simp: rx_then_def)

lemma set_rx_seq:
  "(c, r) \<in> set (rx_seq a b s) \<longleftrightarrow>
     (\<exists>x y m. (x, m) \<in> set (a s) \<and> (y, r) \<in> set (b m) \<and> c = x @ y)"
proof -
  have "(c, r) \<in> set (rx_seq a b s) \<longleftrightarrow>
          (\<exists>x y. ((x, y), r) \<in> set (rx_then a b s) \<and> c = x @ y)"
  proof
    assume "(c, r) \<in> set (rx_seq a b s)"
    then obtain p where p: "p \<in> set (rx_then a b s)" "(c, r) = (\<lambda>((x, y), r). (x @ y, r)) p"
      unfolding rx_seq_def set_map by blast
    obtain x y r' where "p = ((x, y), r')" by (metis prod.exhaust)
    with p show "\<exists>x y. ((x, y), r) \<in> set (rx_then a b s) \<and> c = x @ y" by auto
  next
    assume "\<exists>x y. ((x, y), r) \<in> set (rx_then a b s) \<and> c = x @ y"
    then obtain x y where xy: "((x, y), r) \<in> set (rx_then a b s)" "c = x @ y" by blast
    have "(c, r) = (\<lambda>((x, y), r). (x @ y, r)) ((x, y), r)" using xy(2) by simp
    with xy(1) show "(c, r) \<in> set (rx_seq a b s)"
      unfolding rx_seq_def set_map by (rule image_eqI [rotated])
  qed
  then show ?thesis unfolding set_rx_then by blast
qed

lemma set_rx_opt: "(c, r) \<in> set (rx_opt a s) \<longleftrightarrow> (c, r) \<in> set (a s) \<or> (c = [] \<and> r = s)"
  by (auto simp: rx_opt_def)

lemma set_rx_alt: "(c, r) \<in> set (rx_alt a b s) \<longleftrightarrow> (c, r) \<in> set (a s) \<or> (c, r) \<in> set (b s)"
  by (auto simp: rx_alt_def)

lemma set_rx_eos: "(c, r) \<in> set (rx_eos s) \<longleftrightarrow> c = [] \<and> r = s \<and> (s = [] \<or> s = [nl])"
  by (auto simp: rx_eos_def)

lemma set_rx_chr: "(c, r) \<in> set (rx_chr P s) \<longleftrightarrow> (\<exists>x. c = [x] \<and> s = x # r \<and> P x)"
  by (auto simp: rx_chr_def split: list.splits)

lemma set_rx_not_ahead:
  "(c, r) \<in> set (rx_not_ahead P s) \<longleftrightarrow> c = [] \<and> r = s \<and> (s = [] \<or> \<not> P (hd s))"
  by (auto simp: rx_not_ahead_def split: list.splits)

lemma re_match_None: "re_match p s = None \<longleftrightarrow> p s = []"
  by (auto simp: re_match_def split: list.splits)


lemma consumingD: "consuming a \<Longrightarrow> (c, r) \<in> set (a s) \<Longrightarrow> s = c @ r"
  by (simp add: consuming_def)

lemma consuming_lit: "consuming (rx_lit l)"
  by (simp add: consuming_def set_rx_lit)

lemma consuming_plus: "consuming (rx_plus P)"
  by (simp add: consuming_def set_rx_plus)

lemma consuming_star: "consuming (rx_star P)"
  by (simp add: consuming_def set_rx_star)

lemma consuming_lazy_plus: "consuming (rx_lazy_plus P)"
  by (simp add: consuming_def set_rx_lazy_plus set_rx_plus)

lemma consuming_eos: "consuming rx_eos"
  by (simp add: consuming_def set_rx_eos)

lemma consuming_chr: "consuming (rx_chr P)"
  by (auto simp: consuming_def set_rx_chr)

lemma consuming_not_ahead: "consuming (rx_not_ahead P)"
  by (simp add: consuming_def set_rx_not_ahead)

lemma consuming_seq: "consuming a \<Longrightarrow> consuming b \<Longrightarrow> consuming (rx_seq a b)"
  unfolding consuming_def set_rx_seq by fastforce

lemma consuming_opt: "consuming a \<Longrightarrow> consuming (rx_opt a)"
  unfolding consuming_def set_rx_opt by auto

lemma consuming_alt: "consuming a \<Longrightarrow> consuming b \<Longrightarrow> consuming (rx_alt a b)"
  unfolding consuming_def set_rx_alt by auto

lemmas consuming_intros = consuming_lit consuming_plus consuming_star consuming_lazy_plus
  consuming_eos consuming_chr consuming_not_ahead consuming_seq consuming_opt consuming_alt

lemma re_match_SomeD: "re_match p s = Some g \<Longrightarrow> \<exists>r. (g, r) \<in> set (p s)"
  by (auto simp: re_match_def split: list.splits)

lemma rx_then_consumes:
  "consuming a \<Longrightarrow> consuming b \<Longrightarrow> ((x, y), r) \<in> set (rx_then a b s) \<Longrightarrow> s = x @ y @ r"
  unfolding set_rx_then by (auto dest: consumingD)

subsection \<open>Stripping at the end\<close>

lemma strip_tail:
  assumes "\<forall>c \<in> set ws. P c" and "body = [] \<or> \<not> P (last body)"
  shows "rev (dropWhile P (rev (body @ ws))) = body"
proof -
  have "dropWhile P (rev ws @ rev body) = dropWhile P (rev body)"
    using assms(1) by (intro dropWhile_append2) simp
  then have "dropWhile P (rev (body @ ws)) = dropWhile P (rev body)"
    by simp
  also have "\<dots> = rev body"
  proof (cases "body = []")
    case True
    then show ?thesis by simp
  next
    case False
    then obtain bs b where b: "body = bs @ [b]" by (metis rev_exhaust)
    with assms(2) have "\<not> P b" by simp
    then show ?thesis unfolding b by simp
  qed
  finally show ?thesis by simp
qed

lemma rstrip_tail:
  "\<forall>c \<in> set ws. is_space c \<Longrightarrow> body = [] \<or> \<not> is_space (last body) \<Longrightarrow> rstrip (body @ ws) = body"
  unfolding rstrip_def by (rule strip_tail)

lemma rstrip_nl_tail: "body = [] \<or> last body \<noteq> nl \<Longrightarrow> rstrip_nl (body @ replicate n nl) = body"
  unfolding rstrip_nl_def by (rule strip_tail) auto

lemma strip_decompose:
  "\<exists>ws. s = rev (dropWhile P (rev s)) @ ws \<and> (\<forall>c \<in> set ws. P c)
      \<and> (rev (dropWhile P (rev s)) = [] \<or> \<not> P (last (rev (dropWhile P (rev s)))))"
proof -
  let ?b = "rev (dropWhile P (rev s))" and ?w = "rev (takeWhile P (rev s))"
  have "rev s = takeWhile P (rev s) @ dropWhile P (rev s)" by simp
  then have "rev (rev s) = ?b @ ?w" by (metis rev_append)
  then have 1: "s = ?b @ ?w" by simp
  have 2: "\<forall>c \<in> set ?w. P c" by (auto dest: set_takeWhileD)
  have 3: "?b = [] \<or> \<not> P (last ?b)"
  proof (cases "dropWhile P (rev s)")
    case Nil
    then show ?thesis by simp
  next
    case (Cons a as)
    then have "\<not> P a" by (metis hd_dropWhile list.sel(1) list.distinct(1))
    then show ?thesis using Cons by simp
  qed
  from 1 2 3 show ?thesis by blast
qed

text \<open>No match of the first part, no match of the whole.\<close>

lemma rx_plus_no_match: "\<not> (l \<noteq> [] \<and> P (hd l)) \<Longrightarrow> rx_plus P l = []"
  by (cases l) (auto simp: rx_plus_def)

lemma rx_then_no_match: "a s = [] \<Longrightarrow> rx_then a b s = []"
  by (simp add: rx_then_def)

lemma rx_seq_no_match: "a s = [] \<Longrightarrow> rx_seq a b s = []"
  by (simp add: rx_seq_def rx_then_no_match)

subsection \<open>The first match\<close>












section \<open>Properties of fix-ansible-yaml.py\<close>

subsection \<open>The line maps of fix_fqcn and fix_truthy_values\<close>

lemma fqcn_inner_fst: "fst (fqcn_inner ms l (cur, m)) = fst (fqcn_inner ms l (cur, False))"
proof (induction ms arbitrary: cur m)
  case Nil
  show ?case by simp
next
  case (Cons a ms)
  obtain sn fq where a: "a = (sn, fq)" by (cases a)
  show ?case using Cons.IH [of cur m] unfolding a by (simp split: option.splits prod.splits)
qed

lemma fst_fqcn_lines: "fst (fqcn_lines ls m) = map fqcn_line ls"
proof (induction ls arbitrary: m)
  case Nil
  show ?case by simp
next
  case (Cons l ls)
  obtain l' m' where i: "fqcn_inner FQCN_MAPPINGS l (l, m) = (l', m')" by (cases "fqcn_inner FQCN_MAPPINGS l (l, m)")
  have "l' = fqcn_line l" using fqcn_inner_fst [of FQCN_MAPPINGS l l m] i by (simp add: fqcn_line_def)
  then show ?case using Cons.IH [of m'] i by (simp add: case_prod_beta)
qed

lemma fst_fix_fqcn: "fst (fix_fqcn content) = join_nl (map fqcn_line (split_nl content))"
  using fst_fqcn_lines [of "split_nl content" False]
  by (simp add: fix_fqcn_def case_prod_beta)

lemma truthy_inner_fst: "fst (truthy_inner ms l (cur, m)) = fst (truthy_inner ms l (cur, False))"
proof (induction ms arbitrary: cur m)
  case Nil
  show ?case by simp
next
  case (Cons a ms)
  obtain ov nv where a: "a = (ov, nv)" by (cases a)
  show ?case using Cons.IH [of cur m] unfolding a by (simp split: option.splits prod.splits)
qed

lemma fst_truthy_lines: "fst (truthy_lines ls m) = map truthy_line ls"
proof (induction ls arbitrary: m)
  case Nil
  show ?case by simp
next
  case (Cons l ls)
  obtain l' m' where i: "truthy_inner TRUTHY_MAPPINGS l (l, m) = (l', m')" by (cases "truthy_inner TRUTHY_MAPPINGS l (l, m)")
  have "l' = truthy_line l" using truthy_inner_fst [of TRUTHY_MAPPINGS l l m] i by (simp add: truthy_line_def)
  then show ?case using Cons.IH [of m'] i by (simp add: case_prod_beta)
qed

lemma fst_fix_truthy_values:
  "fst (fix_truthy_values content) = join_nl (map truthy_line (split_nl content))"
  using fst_truthy_lines [of "split_nl content" False]
  by (simp add: fix_truthy_values_def case_prod_beta)

text \<open>Both patterns consume the text they capture, so a rewritten line has no newline.\<close>

lemma fqcn_pattern_consumes:
  "((indent, key), r) \<in> set (fqcn_pattern sn l) \<Longrightarrow> l = indent @ key @ r"
proof -
  assume a: "((indent, key), r) \<in> set (fqcn_pattern sn l)"
  show ?thesis
    by (rule rx_then_consumes [OF _ _ a [unfolded fqcn_pattern_def]]) (intro consuming_intros)+
qed

lemma truthy_pattern_consumes:
  assumes "((b, v, a), r) \<in> set (truthy_pattern ov l)"
  shows "l = b @ v @ a @ r"
proof -
  from assms obtain m where m: "(b, m) \<in> set (rx_seq (rx_plus is_space) (rx_seq (rx_plus is_word)
                (rx_seq (rx_lit '':'') (rx_plus is_space))) l)"
      "((v, a), r) \<in> set (rx_then (rx_lit ov)
          (rx_seq (rx_star is_space)
             (rx_seq (rx_opt (rx_seq (rx_lit ''#'') (rx_star (\<lambda>c. c \<noteq> nl)))) rx_eos)) m)"
    unfolding truthy_pattern_def set_rx_then by blast
  have c1: "consuming (rx_seq (rx_plus is_space) (rx_seq (rx_plus is_word)
                (rx_seq (rx_lit '':'') (rx_plus is_space))))"
    by (intro consuming_intros)
  have c2: "consuming (rx_lit ov)" by (intro consuming_intros)
  have c3: "consuming (rx_seq (rx_star is_space)
             (rx_seq (rx_opt (rx_seq (rx_lit ''#'') (rx_star (\<lambda>c. c \<noteq> nl)))) rx_eos))"
    by (intro consuming_intros)
  have "l = b @ m" using consumingD [OF c1 m(1)] .
  moreover have "m = v @ a @ r" using rx_then_consumes [OF c2 c3 m(2)] .
  ultimately show ?thesis by simp
qed

lemma fqcn_inner_no_nl:
  assumes "nl \<notin> set l" "nl \<notin> set cur" "\<forall>(sn, fq) \<in> set ms. nl \<notin> set fq"
  shows "nl \<notin> set (fst (fqcn_inner ms l (cur, m)))"
  using assms
proof (induction ms arbitrary: cur m)
  case Nil
  then show ?case by simp
next
  case (Cons a ms)
  obtain sn fq where a: "a = (sn, fq)" by (cases a)
  show ?case
  proof (cases "re_match (fqcn_pattern sn) l")
    case None
    then show ?thesis using Cons a by simp
  next
    case (Some g)
    obtain indent key where g: "g = (indent, key)" by (cases g)
    from Some g obtain r where "((indent, key), r) \<in> set (fqcn_pattern sn l)"
      using re_match_SomeD [of "fqcn_pattern sn" l g] by auto
    then have "l = indent @ key @ r" by (rule fqcn_pattern_consumes)
    with Cons.prems a have "nl \<notin> set (indent @ fq @ '':'')" by (auto simp: nl_def)
    then show ?thesis using Cons.IH [of "indent @ fq @ '':''" True] Cons.prems Some g a by simp
  qed
qed

lemma fqcn_line_no_nl: "nl \<notin> set l \<Longrightarrow> nl \<notin> set (fqcn_line l)"
  unfolding fqcn_line_def by (rule fqcn_inner_no_nl) (simp_all add: FQCN_MAPPINGS_def nl_def)

lemma truthy_inner_no_nl:
  assumes "nl \<notin> set l" "nl \<notin> set cur" "\<forall>(ov, nv) \<in> set ms. nl \<notin> set nv"
  shows "nl \<notin> set (fst (truthy_inner ms l (cur, m)))"
  using assms
proof (induction ms arbitrary: cur m)
  case Nil
  then show ?case by simp
next
  case (Cons a ms)
  obtain ov nv where a: "a = (ov, nv)" by (cases a)
  show ?case
  proof (cases "re_match (truthy_pattern ov) l")
    case None
    then show ?thesis using Cons a by simp
  next
    case (Some g)
    obtain b v af where g: "g = (b, v, af)" by (cases g)
    from Some g obtain r where "((b, v, af), r) \<in> set (truthy_pattern ov l)"
      using re_match_SomeD [of "truthy_pattern ov" l g] by auto
    then have "l = b @ v @ af @ r" by (rule truthy_pattern_consumes)
    with Cons.prems a have "nl \<notin> set (b @ nv @ af)" by auto
    then show ?thesis using Cons.IH [of "b @ nv @ af" True] Cons.prems Some g a by simp
  qed
qed

lemma truthy_line_no_nl: "nl \<notin> set l \<Longrightarrow> nl \<notin> set (truthy_line l)"
  unfolding truthy_line_def by (rule truthy_inner_no_nl) (simp_all add: TRUTHY_MAPPINGS_def nl_def)

lemma split_fix_fqcn: "split_nl (fst (fix_fqcn content)) = map fqcn_line (split_nl content)"
  unfolding fst_fix_fqcn
  by (rule split_join_nl) (auto simp: split_nl_not_Nil dest: split_nl_no_nl fqcn_line_no_nl)

lemma split_fix_truthy_values:
  "split_nl (fst (fix_truthy_values content)) = map truthy_line (split_nl content)"
  unfolding fst_fix_truthy_values
  by (rule split_join_nl) (auto simp: split_nl_not_Nil dest: split_nl_no_nl truthy_line_no_nl)

text \<open>A line that does not start with whitespace matches neither pattern.\<close>

lemma fqcn_pattern_unindented:
  "\<not> (l \<noteq> [] \<and> is_space (hd l)) \<Longrightarrow> fqcn_pattern sn l = []"
  unfolding fqcn_pattern_def by (intro rx_then_no_match rx_seq_no_match rx_plus_no_match)

lemma truthy_pattern_unindented:
  "\<not> (l \<noteq> [] \<and> is_space (hd l)) \<Longrightarrow> truthy_pattern ov l = []"
  unfolding truthy_pattern_def by (intro rx_then_no_match rx_seq_no_match rx_plus_no_match)

lemma fqcn_inner_unindented:
  "\<not> (l \<noteq> [] \<and> is_space (hd l)) \<Longrightarrow> fqcn_inner ms l st = st"
proof (induction ms)
  case Nil
  show ?case by simp
next
  case (Cons a ms)
  obtain sn fq where a: "a = (sn, fq)" by (cases a)
  have "re_match (fqcn_pattern sn) l = None"
    using fqcn_pattern_unindented [OF Cons.prems] by (simp add: re_match_None)
  then show ?case using Cons a by simp
qed

lemma truthy_inner_unindented:
  "\<not> (l \<noteq> [] \<and> is_space (hd l)) \<Longrightarrow> truthy_inner ms l st = st"
proof (induction ms)
  case Nil
  show ?case by simp
next
  case (Cons a ms)
  obtain ov nv where a: "a = (ov, nv)" by (cases a)
  have "re_match (truthy_pattern ov) l = None"
    using truthy_pattern_unindented [OF Cons.prems] by (simp add: re_match_None)
  then show ?case using Cons a by simp
qed

text \<open>
  C9. A line that does not start with a whitespace character is left as it is by
  \<open>fix_fqcn\<close> and by \<open>fix_truthy_values\<close>: line \<open>i\<close> of the output is line \<open>i\<close> of the
  input. Both patterns begin with \<open>\s+\<close>.
\<close>

theorem unindented_lines_unchanged:
  assumes "i < length (split_nl content)"
    and "\<not> (split_nl content ! i \<noteq> [] \<and> is_space (hd (split_nl content ! i)))"
  shows "split_nl (fst (fix_fqcn content)) ! i = split_nl content ! i
       \<and> split_nl (fst (fix_truthy_values content)) ! i = split_nl content ! i"
  using assms
  by (simp add: split_fix_fqcn split_fix_truthy_values fqcn_line_def truthy_line_def
      fqcn_inner_unindented truthy_inner_unindented)

theorem unindented_lines_unchanged_witness:
  "split_nl (fst (fix_fqcn ''apt: name=foo\<newline>  apt: x\<newline>enabled: yes'')) ! 0 = ''apt: name=foo''
   \<and> split_nl (fst (fix_truthy_values ''apt: name=foo\<newline>  apt: x\<newline>enabled: yes'')) ! 2 = ''enabled: yes''
   \<and> split_nl (fst (fix_fqcn ''apt: name=foo\<newline>  apt: x\<newline>enabled: yes'')) ! 1 = ''  ansible.builtin.apt:''"
proof -
  have s: "split_nl ''apt: name=foo\<newline>  apt: x\<newline>enabled: yes''
           = [''apt: name=foo'', ''  apt: x'', ''enabled: yes'']"
    by code_simp
  have sp: "\<not> is_space (CHR ''a'')" "\<not> is_space (CHR ''e'')" by code_simp+
  have "split_nl (fst (fix_fqcn ''apt: name=foo\<newline>  apt: x\<newline>enabled: yes'')) ! 1 = ''  ansible.builtin.apt:''"
    by code_simp
  then show ?thesis
    using unindented_lines_unchanged [of 0 "''apt: name=foo\<newline>  apt: x\<newline>enabled: yes''"]
      unindented_lines_unchanged [of 2 "''apt: name=foo\<newline>  apt: x\<newline>enabled: yes''"]
    by (simp add: s sp)
qed

subsection \<open>What the pattern of fix_truthy_values matches\<close>

lemma span_unique:
  assumes "xs @ ys = xs' @ ys'"
    and "\<forall>x \<in> set xs. P x" "\<forall>x \<in> set xs'. P x"
    and "ys = [] \<or> \<not> P (hd ys)" "ys' = [] \<or> \<not> P (hd ys')"
  shows "xs = xs' \<and> ys = ys'"
proof -
  have 1: "takeWhile P (xs @ ys) = xs"
    using assms(2,4) by (cases ys) (simp_all add: takeWhile_append2 takeWhile_tail)
  have 2: "takeWhile P (xs' @ ys') = xs'"
    using assms(3,5) by (cases ys') (simp_all add: takeWhile_append2 takeWhile_tail)
  from 1 2 assms(1) have "xs = xs'" by simp
  with assms(1) show ?thesis by simp
qed
















subsection \<open>The two brace-spacing transforms\<close>








text \<open>
  C1. A line \<open><indent>apt: <rest>\<close> should have only its module key rewritten, the text
  after the colon staying as it is: \<open>'  apt: name=foo'\<close> should become
  \<open>'  ansible.builtin.apt: name=foo'\<close>. The code rebuilds the line from the indent, the
  qualified name and a colon alone, so the text after the colon is lost.
\<close>

theorem fix_fqcn_drops_rest_of_line:
  "fix_fqcn ''  apt: name=foo'' = (''  ansible.builtin.apt:'', True)"
  by code_simp

section \<open>Properties of check-markdown.py and fix-markdown.py\<close>

text \<open>
  C8. The end of the file is normalised to exactly one newline. For \<open>fix_eof_newline\<close>
  this holds as stated: a content is some \<open>body\<close> that does not end in a newline, followed
  by \<open>n\<close> newlines, and the result is \<open>body\<close> and one newline (appended for \<open>n = 0\<close>,
  unchanged for \<open>n = 1\<close>, collapsed for \<open>n \<ge> 2\<close>). The end-of-file statement of
  fix-markdown-v2.py strips all trailing whitespace, not only newlines, before it appends
  the newline; it gives the same result when \<open>body\<close> does not end in whitespace, and
  otherwise changes even a content that ends in exactly one newline.
\<close>

theorem eof_newline_normalized:
  assumes "body = [] \<or> last body \<noteq> nl"
  shows "fix_eof_newline (body @ replicate n nl) = body @ [nl]
       \<and> ((body = [] \<or> \<not> is_space (last body)) \<longrightarrow> v2_fix_eof (body @ replicate n nl) = body @ [nl])"
proof -
  have "\<forall>c \<in> set (replicate n nl). is_space c" by (simp add: is_space_def nl_def)
  then show ?thesis
    using assms rstrip_nl_tail [of body n] rstrip_tail [of "replicate n nl" body]
    by (simp add: fix_eof_newline_def v2_fix_eof_def)
qed

theorem eof_newline_normalized_witness:
  "fix_eof_newline ''a '' = ''a \<newline>'' \<and> fix_eof_newline ''a \<newline>'' = ''a \<newline>''
   \<and> fix_eof_newline ''a \<newline>\<newline>\<newline>'' = ''a \<newline>''
   \<and> v2_fix_eof ''a'' = ''a\<newline>'' \<and> v2_fix_eof ''a\<newline>'' = ''a\<newline>''
   \<and> v2_fix_eof ''a\<newline>\<newline>\<newline>'' = ''a\<newline>''"
  using eof_newline_normalized [of "''a ''" 0] eof_newline_normalized [of "''a ''" 1]
    eof_newline_normalized [of "''a ''" 3] eof_newline_normalized [of "''a''" 0]
    eof_newline_normalized [of "''a''" 1] eof_newline_normalized [of "''a''" 3]
  by (simp add: nl_def is_space_def numeral_3_eq_3)

theorem v2_fix_eof_counterexample:
  "v2_fix_eof ''a \<newline>'' = ''a\<newline>'' \<and> v2_fix_eof ''a \<newline>'' \<noteq> ''a \<newline>''
   \<and> v2_fix_eof ''a '' = ''a\<newline>'' \<and> v2_fix_eof ''a '' \<noteq> ''a \<newline>''"
  by code_simp

subsection \<open>The issues of one line and of the loop\<close>




lemma not_MD034 [simp]:
  "MD009 k n \<notin> MD034 i ` A" "MD022_after k \<notin> MD034 i ` A"
  by auto

















subsection \<open>Reading an issue back from its message\<close>

lemma digit_char:
  "(d::nat) < 10 \<Longrightarrow> is_digit (char_of (48 + d)) \<and> of_char (char_of (48 + d)) = 48 + d"
  by (simp add: is_digit_def)

lemma str_nat_digits: "\<forall>c \<in> set (str_nat n). is_digit c"
proof (induction n rule: str_nat.induct)
  case (1 n)
  show ?case
  proof (cases "n < 10")
    case True
    then show ?thesis using digit_char [of n] by (subst str_nat.simps) simp
  next
    case False
    have "n mod 10 < 10" by simp
    then have "is_digit (char_of (48 + n mod 10))" using digit_char by blast
    then show ?thesis using 1 False by (subst str_nat.simps) simp
  qed
qed

lemma digits_value_snoc: "digits_value (s @ [c]) = 10 * digits_value s + (of_char c - 48)"
  by (simp add: digits_value_def)

lemma digits_value_str_nat: "digits_value (str_nat n) = n"
proof (induction n rule: str_nat.induct)
  case (1 n)
  show ?case
  proof (cases "n < 10")
    case True
    then show ?thesis
      using digit_char [of n] by (subst str_nat.simps) (simp add: digits_value_def)
  next
    case False
    have "n mod 10 < 10" by simp
    then have "of_char (char_of (48 + n mod 10)) = 48 + n mod 10" using digit_char by blast
    then show ?thesis
      using 1 False by (subst str_nat.simps) (simp add: digits_value_snoc)
  qed
qed

lemma str_nat_inj: "str_nat n = str_nat m \<Longrightarrow> n = m"
  by (metis digits_value_str_nat)


lemma closing_number:
  assumes "str_nat n @ CHR '')'' # r = str_nat m @ CHR '')'' # r'"
  shows "n = m"
proof -
  have c: "\<not> is_digit (CHR '')'')" by (simp add: is_digit_def)
  have "str_nat n = str_nat m \<and> CHR '')'' # r = CHR '')'' # r'"
    by (rule span_unique [OF assms str_nat_digits str_nat_digits]) (simp_all add: c)
  then show ?thesis using str_nat_inj by simp
qed










subsection \<open>Putting blank lines between lines\<close>

lemma blank_insertion_refl: "blank_insertion xs xs"
  by (induction xs) (auto intro: blank_insertion.intros)

lemma blank_insertion_blanks_between: "blank_insertion r (blanks_between bad nxt s p r)"
  by (induction r arbitrary: s p) (auto intro: blank_insertion.intros)

lemma blank_insertion_with_blanks: "blank_insertion xs (with_blanks bad nxt s xs)"
  by (cases xs) (auto simp: with_blanks_def intro: blank_insertion.intros blank_insertion_blanks_between)

lemma blank_insertion_subseq: "blank_insertion xs ys \<Longrightarrow> subseq xs ys"
  by (induction rule: blank_insertion.induct) auto

lemma blank_insertion_filter:
  "blank_insertion xs ys \<Longrightarrow> filter (\<lambda>l. l \<noteq> []) ys = filter (\<lambda>l. l \<noteq> []) xs"
  by (induction rule: blank_insertion.induct) auto

lemma blank_insertion_set: "blank_insertion xs ys \<Longrightarrow> set ys \<subseteq> insert [] (set xs)"
  by (induction rule: blank_insertion.induct) auto

lemma blank_insertion_not_Nil: "blank_insertion xs ys \<Longrightarrow> xs \<noteq> [] \<Longrightarrow> ys \<noteq> []"
  by (induction rule: blank_insertion.induct) auto

lemma blank_insertion_no_nl:
  assumes "blank_insertion xs ys" "\<forall>x \<in> set xs. nl \<notin> set x"
  shows "\<forall>y \<in> set ys. nl \<notin> set y"
proof
  fix y assume "y \<in> set ys"
  with blank_insertion_set [OF assms(1)] have "y = [] \<or> y \<in> set xs" by auto
  with assms(2) show "nl \<notin> set y" by auto
qed

lemma blanks_between_settled:
  "settled bad nxt s p r \<Longrightarrow> blanks_between bad nxt s p r = r"
  by (induction r arbitrary: s p) auto

lemma with_blanks_settled:
  "settled_lines bad nxt s xs \<Longrightarrow> with_blanks bad nxt s xs = xs"
  by (cases xs) (auto simp: with_blanks_def settled_lines_def blanks_between_settled)

lemma settled_blanks_between:
  assumes "blank_neutral bad nxt"
  shows "settled bad nxt s p (blanks_between bad nxt s p r)"
proof (induction r arbitrary: s p)
  case Nil
  show ?case by simp
next
  case (Cons y r)
  from assms have n: "\<not> bad s p []" "\<not> bad (nxt s p) [] y" "nxt (nxt s p) [] = nxt s p"
    unfolding blank_neutral_def by simp_all
  show ?case using Cons [of "nxt s p" y] n by simp
qed

lemma settled_with_blanks:
  "blank_neutral bad nxt \<Longrightarrow> settled_lines bad nxt s (with_blanks bad nxt s xs)"
  by (cases xs) (auto simp: with_blanks_def settled_lines_def settled_blanks_between)

lemma settled_blank_insertion:
  assumes "blank_neutral bad nxt" "blank_insertion xs ys"
  shows "settled bad nxt s p xs \<Longrightarrow> settled bad nxt s p ys"
  using assms(2)
proof (induction arbitrary: s p rule: blank_insertion.induct)
  case stop
  then show ?case by simp
next
  case (keep xs ys x)
  then show ?case by simp
next
  case (blank xs ys)
  from assms(1) have n: "\<not> bad s p []" "nxt (nxt s p) [] = nxt s p" "\<And>y. \<not> bad (nxt s p) [] y"
    unfolding blank_neutral_def by simp_all
  from blank have 1: "settled bad nxt s p ys" by simp
  have "settled bad nxt (nxt s p) [] ys"
    using 1 n by (cases ys) simp_all
  with n(1) show ?case by simp
qed

lemma settled_lines_blank_insertion:
  assumes "blank_neutral bad nxt" "blank_insertion xs ys" "settled_lines bad nxt s xs"
  shows "settled_lines bad nxt s ys"
  using assms(2,3)
proof (induction rule: blank_insertion.induct)
  case stop
  then show ?case by simp
next
  case (keep xs ys x)
  then show ?case
    using settled_blank_insertion [OF assms(1) keep(1), of s x] by (simp add: settled_lines_def)
next
  case (blank xs ys)
  from assms(1) have n: "nxt s [] = s" "\<And>y. \<not> bad s [] y"
    unfolding blank_neutral_def by simp_all
  from blank have "settled_lines bad nxt s ys" by simp
  then have "settled bad nxt s [] ys"
    using n by (cases ys) (simp_all add: settled_lines_def)
  then show ?case by (simp add: settled_lines_def)
qed

lemma settled_prefix: "settled bad nxt s p (xs @ ys) \<Longrightarrow> settled bad nxt s p xs"
  by (induction xs arbitrary: s p) auto

lemma settled_snoc:
  "\<forall>s x. \<not> bad s x [] \<Longrightarrow> settled bad nxt s p xs \<Longrightarrow> settled bad nxt s p (xs @ [[]])"
  by (induction xs arbitrary: s p) auto

lemma settled_lines_prefix: "settled_lines bad nxt s (xs @ ys) \<Longrightarrow> settled_lines bad nxt s xs"
  by (cases xs) (auto simp: settled_lines_def dest: settled_prefix)

lemma settled_lines_snoc:
  "blank_neutral bad nxt \<Longrightarrow> settled_lines bad nxt s xs \<Longrightarrow> settled_lines bad nxt s (xs @ [[]])"
  by (cases xs) (auto simp: settled_lines_def blank_neutral_def intro: settled_snoc)

subsection \<open>The three loops put blank lines between lines\<close>

lemma strip_Nil [simp]: "strip [] = []"
  by (simp add: strip_def rstrip_def)

lemma strip_not_Nil: "strip p \<noteq> [] \<Longrightarrow> p \<noteq> []"
  by auto

lemma startswith_Nil [simp]: "p \<noteq> [] \<Longrightarrow> \<not> startswith [] p"
  by (simp add: startswith_def)

lemma is_list_line_Nil [simp]: "\<not> is_list_line []"
  by code_simp

lemma is_list_line_not_Nil: "is_list_line p \<Longrightarrow> p \<noteq> []"
  by auto

lemma headings_step_first:
  "headings_step None x rest [] =
     x # (if rest \<noteq> [] \<and> after_heading x (hd rest) then [[]] else [])"
  by (cases rest) (auto simp: headings_step_def Let_def after_heading_def heading_line_def)

lemma headings_step_next:
  "headings_step (Some p) y rest (R @ p # (if after_heading p y then [[]] else [])) =
     R @ p # (if bad_headings () p y then [[]] else []) @
     y # (if rest \<noteq> [] \<and> after_heading y (hd rest) then [[]] else [])"
proof -
  have p: "strip p \<noteq> [] \<Longrightarrow> p \<noteq> []" by auto
  show ?thesis
    using p
    by (cases rest)
      (auto simp: headings_step_def Let_def after_heading_def heading_line_def bad_headings_def)
qed

lemma headings_loop_eq:
  "headings_loop (Some p) rest
     (R @ p # (if rest \<noteq> [] \<and> after_heading p (hd rest) then [[]] else [])) =
   R @ p # blanks_between bad_headings same_state () p rest"
proof (induction rest arbitrary: p R)
  case Nil
  show ?case by simp
next
  case (Cons y r)
  have "headings_loop (Some p) (y # r)
          (R @ p # (if (y # r) \<noteq> [] \<and> after_heading p (hd (y # r)) then [[]] else [])) =
        headings_loop (Some y) r
          (headings_step (Some p) y r (R @ p # (if after_heading p y then [[]] else [])))"
    by simp
  also have "\<dots> = headings_loop (Some y) r
      ((R @ p # (if bad_headings () p y then [[]] else [])) @
       y # (if r \<noteq> [] \<and> after_heading y (hd r) then [[]] else []))"
    unfolding headings_step_next by simp
  also have "\<dots> = (R @ p # (if bad_headings () p y then [[]] else [])) @
      y # blanks_between bad_headings same_state () y r"
    by (rule Cons.IH)
  also have "\<dots> = R @ p # blanks_between bad_headings same_state () p (y # r)"
    by (simp add: same_state_def)
  finally show ?case .
qed

lemma headings_lines:
  "headings_loop None xs [] = with_blanks bad_headings same_state () xs"
proof (cases xs)
  case Nil
  then show ?thesis by (simp add: with_blanks_def)
next
  case (Cons x r)
  show ?thesis
    unfolding Cons using headings_loop_eq [of x r "[]"]
    by (simp add: with_blanks_def headings_step_first)
qed

lemma fences_step_first: "fences_step None False x rest [] = (nxt_fences False x, [x])"
  by (simp add: fences_step_def Let_def nxt_fences_def fence_line_def)

lemma fences_step_next:
  "fences_step (Some p) (nxt_fences s p) y rest
     (R @ p # (if fence_line p \<and> s \<and> strip y \<noteq> [] then [[]] else [])) =
   (nxt_fences (nxt_fences s p) y,
    R @ p # (if bad_fences s p y then [[]] else []) @
    y # (if rest \<noteq> [] \<and> fence_line y \<and> nxt_fences s p \<and> strip (hd rest) \<noteq> []
         then [[]] else []))"
proof -
  have p: "strip p \<noteq> [] \<Longrightarrow> p \<noteq> []" by auto
  show ?thesis
    using p
    by (cases rest)
      (auto simp: fences_step_def Let_def nxt_fences_def fence_line_def bad_fences_def)
qed

lemma fences_loop_eq:
  "fences_loop (Some p) (nxt_fences s p) rest
     (R @ p # (if rest \<noteq> [] \<and> fence_line p \<and> s \<and> strip (hd rest) \<noteq> [] then [[]] else [])) =
   R @ p # blanks_between bad_fences nxt_fences s p rest"
proof (induction rest arbitrary: p s R)
  case Nil
  show ?case by simp
next
  case (Cons y r)
  have "fences_loop (Some p) (nxt_fences s p) (y # r)
          (R @ p # (if (y # r) \<noteq> [] \<and> fence_line p \<and> s \<and> strip (hd (y # r)) \<noteq> []
                    then [[]] else [])) =
        fences_loop (Some y) (nxt_fences (nxt_fences s p) y) r
          ((R @ p # (if bad_fences s p y then [[]] else [])) @
           y # (if r \<noteq> [] \<and> fence_line y \<and> nxt_fences s p \<and> strip (hd r) \<noteq> []
                then [[]] else []))"
    using fences_step_next [of p s y r R] by simp
  also have "\<dots> = (R @ p # (if bad_fences s p y then [[]] else [])) @
      y # blanks_between bad_fences nxt_fences (nxt_fences s p) y r"
    by (rule Cons.IH)
  also have "\<dots> = R @ p # blanks_between bad_fences nxt_fences s p (y # r)"
    by simp
  finally show ?case .
qed

lemma fences_lines:
  "fences_loop None False xs [] = with_blanks bad_fences nxt_fences False xs"
proof (cases xs)
  case Nil
  then show ?thesis by (simp add: with_blanks_def)
next
  case (Cons x r)
  show ?thesis
    unfolding Cons using fences_loop_eq [of x False r "[]"]
    by (simp add: with_blanks_def fences_step_first)
qed

lemma lists_step_first: "lists_step None False x [] = (is_list_line x, [x])"
  by (simp add: lists_step_def Let_def)

lemma lists_step_next:
  "lists_step (Some p) (is_list_line p) y (R @ [p]) =
     (is_list_line y, R @ p # (if bad_lists () p y then [[]] else []) @ [y])"
proof -
  have p: "strip p \<noteq> [] \<Longrightarrow> p \<noteq> []" "is_list_line p \<Longrightarrow> p \<noteq> []" by auto
  show ?thesis
    using p by (auto simp: lists_step_def Let_def bad_lists_def)
qed

lemma lists_loop_eq:
  "lists_loop (Some p) (is_list_line p) rest (R @ [p]) =
     R @ p # blanks_between bad_lists same_state () p rest"
proof (induction rest arbitrary: p R)
  case Nil
  show ?case by simp
next
  case (Cons y r)
  have "lists_loop (Some p) (is_list_line p) (y # r) (R @ [p]) =
        lists_loop (Some y) (is_list_line y) r
          ((R @ p # (if bad_lists () p y then [[]] else [])) @ [y])"
    using lists_step_next [of p y R] by simp
  also have "\<dots> = (R @ p # (if bad_lists () p y then [[]] else [])) @
      y # blanks_between bad_lists same_state () y r"
    by (rule Cons.IH)
  also have "\<dots> = R @ p # blanks_between bad_lists same_state () p (y # r)"
    by (simp add: same_state_def)
  finally show ?case .
qed

lemma lists_lines:
  "lists_loop None False xs [] = with_blanks bad_lists same_state () xs"
proof (cases xs)
  case Nil
  then show ?thesis by (simp add: with_blanks_def)
next
  case (Cons x r)
  show ?thesis
    unfolding Cons using lists_loop_eq [of x r "[]"]
    by (simp add: with_blanks_def lists_step_first)
qed

lemma split_join_with_blanks:
  "split_nl (join_nl (with_blanks bad nxt s (split_nl content))) =
     with_blanks bad nxt s (split_nl content)"
proof (rule split_join_nl)
  have b: "blank_insertion (split_nl content) (with_blanks bad nxt s (split_nl content))"
    by (rule blank_insertion_with_blanks)
  show "with_blanks bad nxt s (split_nl content) \<noteq> []"
    using blank_insertion_not_Nil [OF b] split_nl_not_Nil by simp
  show "\<forall>x \<in> set (with_blanks bad nxt s (split_nl content)). nl \<notin> set x"
    using blank_insertion_no_nl [OF b] split_nl_no_nl by blast
qed

lemma split_fix_headings:
  "split_nl (fix_blank_lines_around_headings content) =
     with_blanks bad_headings same_state () (split_nl content)"
  unfolding fix_blank_lines_around_headings_def headings_lines by (rule split_join_with_blanks)

lemma split_fix_fences:
  "split_nl (fix_blank_lines_around_fences content) =
     with_blanks bad_fences nxt_fences False (split_nl content)"
  unfolding fix_blank_lines_around_fences_def fences_lines by (rule split_join_with_blanks)

lemma split_fix_lists:
  "split_nl (fix_blank_lines_around_lists content) =
     with_blanks bad_lists same_state () (split_nl content)"
  unfolding fix_blank_lines_around_lists_def lists_lines by (rule split_join_with_blanks)

text \<open>
  C10. Each of \<open>fix_blank_lines_around_headings\<close>, \<open>fix_blank_lines_around_fences\<close> and
  \<open>fix_blank_lines_around_lists\<close> only inserts empty lines: the lines of the input are a
  subsequence of the lines of the output (each input line is there, unmodified and in its
  order), and the lines of the output that are not empty are exactly the lines of the
  input that are not empty, in the same order, so every line that was put in is empty.
\<close>

theorem blank_line_fixers_only_insert_empty_lines:
  "(subseq (split_nl content) (split_nl (fix_blank_lines_around_headings content))
    \<and> filter (\<lambda>l. l \<noteq> []) (split_nl (fix_blank_lines_around_headings content))
        = filter (\<lambda>l. l \<noteq> []) (split_nl content))
   \<and> (subseq (split_nl content) (split_nl (fix_blank_lines_around_fences content))
    \<and> filter (\<lambda>l. l \<noteq> []) (split_nl (fix_blank_lines_around_fences content))
        = filter (\<lambda>l. l \<noteq> []) (split_nl content))
   \<and> (subseq (split_nl content) (split_nl (fix_blank_lines_around_lists content))
    \<and> filter (\<lambda>l. l \<noteq> []) (split_nl (fix_blank_lines_around_lists content))
        = filter (\<lambda>l. l \<noteq> []) (split_nl content))"
  unfolding split_fix_headings split_fix_fences split_fix_lists
  by (simp add: blank_insertion_subseq [OF blank_insertion_with_blanks]
      blank_insertion_filter [OF blank_insertion_with_blanks])

subsection \<open>The fixers on the lines of a text\<close>

lemma proper_split_nl: "proper_lines (split_nl content)"
  using split_nl_no_nl by (auto simp: proper_lines_def split_nl_not_Nil)

lemma split_join_proper: "proper_lines xs \<Longrightarrow> split_nl (join_nl xs) = xs"
  by (simp add: proper_lines_def split_join_nl)

lemma proper_blank_insertion:
  "blank_insertion xs ys \<Longrightarrow> proper_lines xs \<Longrightarrow> proper_lines ys"
  unfolding proper_lines_def
  using blank_insertion_not_Nil blank_insertion_no_nl by blast

lemma proper_with_blanks: "proper_lines xs \<Longrightarrow> proper_lines (with_blanks bad nxt s xs)"
  using blank_insertion_with_blanks by (rule proper_blank_insertion)

lemma rstrip_Nil [simp]: "rstrip [] = []"
  by (simp add: rstrip_def)

lemma rstrip_idem [simp]: "rstrip (rstrip x) = rstrip x"
  by (simp add: rstrip_def dropWhile_idem)

lemma set_rstrip: "set (rstrip x) \<subseteq> set x"
  unfolding rstrip_def using set_dropWhileD by fastforce

lemma proper_map_rstrip: "proper_lines xs \<Longrightarrow> proper_lines (map rstrip xs)"
  unfolding proper_lines_def using set_rstrip by fastforce

lemma fix_trailing_spaces_lines:
  "proper_lines xs \<Longrightarrow> fix_trailing_spaces (join_nl xs) = join_nl (map rstrip xs)"
  by (simp add: fix_trailing_spaces_def split_join_proper)

lemma fix_headings_lines:
  "proper_lines xs \<Longrightarrow>
     fix_blank_lines_around_headings (join_nl xs) = join_nl (with_blanks bad_headings same_state () xs)"
  by (simp add: fix_blank_lines_around_headings_def headings_lines split_join_proper)

lemma fix_fences_lines:
  "proper_lines xs \<Longrightarrow>
     fix_blank_lines_around_fences (join_nl xs) = join_nl (with_blanks bad_fences nxt_fences False xs)"
  by (simp add: fix_blank_lines_around_fences_def fences_lines split_join_proper)

lemma fix_lists_lines:
  "proper_lines xs \<Longrightarrow>
     fix_blank_lines_around_lists (join_nl xs) = join_nl (with_blanks bad_lists same_state () xs)"
  by (simp add: fix_blank_lines_around_lists_def lists_lines split_join_proper)

subsection \<open>The end of the file, by lines\<close>

lemma join_nl_snoc: "xs \<noteq> [] \<Longrightarrow> join_nl (xs @ [y]) = join_nl xs @ nl # y"
proof (induction xs rule: join_nl.induct)
  case 1
  then show ?case by simp
next
  case (2 x)
  show ?case by simp
next
  case (3 x z r)
  then show ?case by simp
qed

lemma rstrip_nl_snoc_nl: "rstrip_nl (s @ [nl]) = rstrip_nl s"
  by (simp add: rstrip_nl_def)

lemma rstrip_nl_no_tail: "s = [] \<or> last s \<noteq> nl \<Longrightarrow> rstrip_nl s = s"
  using rstrip_nl_tail [of s 0] by simp

lemma drop_blank_tail_snoc_blank: "drop_blank_tail (xs @ [[]]) = drop_blank_tail xs"
  by (simp add: drop_blank_tail_def)

lemma drop_blank_tail_snoc: "z \<noteq> [] \<Longrightarrow> drop_blank_tail (xs @ [z]) = xs @ [z]"
  by (simp add: drop_blank_tail_def)

lemma drop_blank_tail_Nil [simp]: "drop_blank_tail [] = []"
  by (simp add: drop_blank_tail_def)

lemma last_not_nl: "z \<noteq> [] \<Longrightarrow> nl \<notin> set z \<Longrightarrow> last z \<noteq> nl"
  by (metis last_in_set)

lemma rstrip_nl_join:
  "proper_lines xs \<Longrightarrow> rstrip_nl (join_nl xs) = join_nl (drop_blank_tail xs)"
proof (induction xs rule: rev_induct)
  case Nil
  then show ?case by (simp add: proper_lines_def)
next
  case (snoc z zs)
  from snoc.prems have z: "nl \<notin> set z" by (simp add: proper_lines_def)
  show ?case
  proof (cases "zs = []")
    case True
    show ?thesis
    proof (cases "z = []")
      case True
      with \<open>zs = []\<close> show ?thesis by (simp add: drop_blank_tail_def rstrip_nl_def)
    next
      case False
      then have "last z \<noteq> nl" using z by (rule last_not_nl)
      then have "rstrip_nl z = z" by (intro rstrip_nl_no_tail) simp
      with False \<open>zs = []\<close> show ?thesis using drop_blank_tail_snoc [of z "[]"] by simp
    qed
  next
    case False
    then have pz: "proper_lines zs" using snoc.prems by (simp add: proper_lines_def)
    have j: "join_nl (zs @ [z]) = join_nl zs @ nl # z" using False by (rule join_nl_snoc)
    show ?thesis
    proof (cases "z = []")
      case True
      have "join_nl (zs @ [z]) = join_nl zs @ [nl]" using j True by simp
      then have "rstrip_nl (join_nl (zs @ [z])) = rstrip_nl (join_nl zs)"
        by (simp add: rstrip_nl_snoc_nl)
      also have "\<dots> = join_nl (drop_blank_tail zs)" using pz by (rule snoc.IH)
      finally show ?thesis unfolding True drop_blank_tail_snoc_blank .
    next
      case nz: False
      then have "last z \<noteq> nl" using z by (rule last_not_nl)
      with nz have "last (join_nl zs @ nl # z) \<noteq> nl" by simp
      then have "rstrip_nl (join_nl zs @ nl # z) = join_nl zs @ nl # z"
        by (intro rstrip_nl_no_tail) simp
      then show ?thesis using j drop_blank_tail_snoc [OF nz, of zs] by simp
    qed
  qed
qed

lemma fix_eof_newline_lines:
  "proper_lines xs \<Longrightarrow> fix_eof_newline (join_nl xs) = join_nl (eof_lines xs)"
proof -
  assume p: "proper_lines xs"
  show ?thesis
  proof (cases "drop_blank_tail xs = []")
    case True
    then show ?thesis
      using rstrip_nl_join [OF p] by (simp add: fix_eof_newline_def eof_lines_def)
  next
    case False
    then show ?thesis
      using rstrip_nl_join [OF p] join_nl_snoc [OF False, of "[]"]
      by (simp add: fix_eof_newline_def eof_lines_def)
  qed
qed

lemma drop_blank_tail_decompose:
  "\<exists>bs. xs = drop_blank_tail xs @ bs \<and> (\<forall>b \<in> set bs. b = [])
      \<and> (drop_blank_tail xs = [] \<or> last (drop_blank_tail xs) \<noteq> [])"
  unfolding drop_blank_tail_def by (rule strip_decompose)

lemma drop_blank_tail_eof_lines:
  "drop_blank_tail xs \<noteq> [] \<Longrightarrow> drop_blank_tail (drop_blank_tail xs @ [[]]) = drop_blank_tail xs"
proof -
  assume n: "drop_blank_tail xs \<noteq> []"
  from drop_blank_tail_decompose [of xs] n have "last (drop_blank_tail xs) \<noteq> []" by blast
  then have "drop_blank_tail xs = [] \<or> \<not> (\<lambda>l. l = []) (last (drop_blank_tail xs))" by simp
  moreover have "\<forall>c \<in> set [[]]. (\<lambda>l. l = []) c" by simp
  ultimately show ?thesis
    unfolding drop_blank_tail_def [of "_ @ [[]]"] by (intro strip_tail)
qed

lemma eof_lines_idem: "eof_lines (eof_lines xs) = eof_lines xs"
proof (cases "drop_blank_tail xs = []")
  case True
  have "drop_blank_tail [[], []] = []" by (simp add: drop_blank_tail_def)
  with True show ?thesis by (simp add: eof_lines_def)
next
  case False
  with drop_blank_tail_eof_lines [OF False] show ?thesis by (simp add: eof_lines_def)
qed

lemma set_eof_lines: "set (eof_lines xs) \<subseteq> insert [] (set xs)"
proof -
  from drop_blank_tail_decompose [of xs] obtain bs where "xs = drop_blank_tail xs @ bs" by blast
  then have "set (drop_blank_tail xs) \<subseteq> set xs" by (metis set_append Un_upper1)
  then show ?thesis by (auto simp: eof_lines_def)
qed

lemma proper_eof_lines: "proper_lines xs \<Longrightarrow> proper_lines (eof_lines xs)"
  using set_eof_lines [of xs] by (auto simp: proper_lines_def eof_lines_def)

lemma settled_eof_lines:
  assumes "blank_neutral bad nxt" "settled_lines bad nxt s xs"
  shows "settled_lines bad nxt s (eof_lines xs)"
proof (cases "drop_blank_tail xs = []")
  case True
  from assms(1) have "\<not> bad s [] []" unfolding blank_neutral_def by simp
  with True show ?thesis by (simp add: eof_lines_def settled_lines_def)
next
  case False
  from drop_blank_tail_decompose [of xs] obtain bs where "xs = drop_blank_tail xs @ bs" by blast
  with assms(2) have "settled_lines bad nxt s (drop_blank_tail xs)"
    using settled_lines_prefix by metis
  with assms(1) have "settled_lines bad nxt s (drop_blank_tail xs @ [[]])"
    by (rule settled_lines_snoc)
  with False show ?thesis by (simp add: eof_lines_def)
qed

subsection \<open>The whole pipeline, by lines\<close>

lemma neutral_headings: "blank_neutral bad_headings same_state"
  by (simp add: blank_neutral_def bad_headings_def after_heading_def heading_line_def same_state_def)

lemma neutral_fences: "blank_neutral bad_fences nxt_fences"
  by (simp add: blank_neutral_def bad_fences_def nxt_fences_def fence_line_def)

lemma neutral_lists: "blank_neutral bad_lists same_state"
  by (simp add: blank_neutral_def bad_lists_def same_state_def)

lemma apply_fixes_lines:
  assumes "proper_lines xs"
  shows "apply_fixes (join_nl xs) = join_nl (fixed_lines xs)"
proof -
  let ?T = "map rstrip xs"
  let ?H = "with_blanks bad_headings same_state () ?T"
  let ?F = "with_blanks bad_fences nxt_fences False ?H"
  let ?L = "with_blanks bad_lists same_state () ?F"
  have pT: "proper_lines ?T" using assms by (rule proper_map_rstrip)
  have pH: "proper_lines ?H" using pT by (rule proper_with_blanks)
  have pF: "proper_lines ?F" using pH by (rule proper_with_blanks)
  have pL: "proper_lines ?L" using pF by (rule proper_with_blanks)
  show ?thesis
    unfolding apply_fixes_def fixed_lines_def
      fix_trailing_spaces_lines [OF assms] fix_headings_lines [OF pT]
      fix_fences_lines [OF pH] fix_lists_lines [OF pF] fix_eof_newline_lines [OF pL] ..
qed

lemma proper_fixed_lines: "proper_lines xs \<Longrightarrow> proper_lines (fixed_lines xs)"
  unfolding fixed_lines_def
  by (intro proper_eof_lines proper_with_blanks proper_map_rstrip)

lemma fixed_lines_idem: "fixed_lines (fixed_lines xs) = fixed_lines xs"
proof -
  let ?T = "map rstrip xs"
  let ?H = "with_blanks bad_headings same_state () ?T"
  let ?F = "with_blanks bad_fences nxt_fences False ?H"
  let ?L = "with_blanks bad_lists same_state () ?F"
  let ?Z = "eof_lines ?L"
  have Z: "fixed_lines xs = ?Z" by (simp add: fixed_lines_def)
  have iF: "blank_insertion ?H ?F" and iL: "blank_insertion ?F ?L"
    by (rule blank_insertion_with_blanks)+
  \<comment> \<open>every line of the result is stripped\<close>
  have "set ?Z \<subseteq> insert [] (set ?T)"
    using set_eof_lines [of ?L] blank_insertion_set [OF iL] blank_insertion_set [OF iF]
      blank_insertion_set [OF blank_insertion_with_blanks, of bad_headings same_state "()" ?T]
    by blast
  then have "\<forall>z \<in> set ?Z. rstrip z = z" by auto
  then have 1: "map rstrip ?Z = ?Z" by (simp add: map_idI)
  \<comment> \<open>no pass has anything left to do\<close>
  have "settled_lines bad_headings same_state () ?H"
    using neutral_headings by (rule settled_with_blanks)
  then have "settled_lines bad_headings same_state () ?F"
    using settled_lines_blank_insertion [OF neutral_headings iF] by simp
  then have "settled_lines bad_headings same_state () ?L"
    using settled_lines_blank_insertion [OF neutral_headings iL] by simp
  then have "settled_lines bad_headings same_state () ?Z"
    using settled_eof_lines [OF neutral_headings] by simp
  then have 2: "with_blanks bad_headings same_state () ?Z = ?Z" by (rule with_blanks_settled)
  have "settled_lines bad_fences nxt_fences False ?F"
    using neutral_fences by (rule settled_with_blanks)
  then have "settled_lines bad_fences nxt_fences False ?L"
    using settled_lines_blank_insertion [OF neutral_fences iL] by simp
  then have "settled_lines bad_fences nxt_fences False ?Z"
    using settled_eof_lines [OF neutral_fences] by simp
  then have 3: "with_blanks bad_fences nxt_fences False ?Z = ?Z" by (rule with_blanks_settled)
  have "settled_lines bad_lists same_state () ?L"
    using neutral_lists by (rule settled_with_blanks)
  then have "settled_lines bad_lists same_state () ?Z"
    using settled_eof_lines [OF neutral_lists] by simp
  then have 4: "with_blanks bad_lists same_state () ?Z = ?Z" by (rule with_blanks_settled)
  have 5: "eof_lines ?Z = ?Z" by (rule eof_lines_idem)
  have "fixed_lines ?Z = ?Z"
    unfolding fixed_lines_def [of ?Z] 1 2 3 4 5 ..
  then show ?thesis unfolding Z .
qed

text \<open>
  C3. The fixes of \<open>process_markdown_file\<close>, applied in its order (trailing spaces,
  blank lines around headings, fences and lists, end-of-file newline), are idempotent:
  applied to their own output they return it unchanged.
\<close>

theorem apply_fixes_idempotent: "apply_fixes (apply_fixes content) = apply_fixes content"
proof -
  let ?xs = "split_nl content"
  have p: "proper_lines ?xs" by (rule proper_split_nl)
  have a: "apply_fixes content = join_nl (fixed_lines ?xs)"
    using apply_fixes_lines [OF p] by (simp add: join_split_nl)
  have "apply_fixes (join_nl (fixed_lines ?xs)) = join_nl (fixed_lines (fixed_lines ?xs))"
    using proper_fixed_lines [OF p] by (rule apply_fixes_lines)
  then show ?thesis unfolding a fixed_lines_idem .
qed

text \<open>
  So a second run of \<open>process_markdown_file\<close> on the same file reads what the first run
  left, changes nothing and writes nothing.
\<close>

lemma process_markdown_file_second_run:
  assumes "process_markdown_file files filepath = Some (files', changed)"
  shows "process_markdown_file files' filepath = Some (files', False)"
proof -
  from assms obtain original where o: "files filepath = Some original"
    by (auto simp: process_markdown_file_def split: option.splits)
  have "files' filepath = Some (apply_fixes original)"
    using assms o by (auto simp: process_markdown_file_def Let_def split: if_splits)
  moreover have "apply_fixes (apply_fixes original) = apply_fixes original"
    using apply_fixes_lines [OF proper_fixed_lines [OF proper_split_nl [of original]]]
      apply_fixes_lines [OF proper_split_nl [of original]]
    by (simp add: join_split_nl fixed_lines_idem)
  ultimately show ?thesis by (simp add: process_markdown_file_def)
qed

text \<open>
  C2. A closing code fence that is not the last line and whose next line is not blank
  should be reported by \<open>check_file\<close> and get a blank line after it from
  \<open>fix_blank_lines_around_fences\<close>. In the document below the fence on line 5 closes the
  block opened on line 1 and is followed by text: the fixer inserts the blank line, but
  \<open>check_file\<close> reports nothing at all, because it toggles \<open>in_code_block\<close> before it
  tests it and so looks for the missing blank line after opening fences only.
\<close>

theorem check_file_misses_closing_fence:
  "check_file ''```py\<newline>\<newline>code\<newline>\<newline>````\<newline>text\<newline>'' = []
   \<and> fix_blank_lines_around_fences
         ''```py\<newline>\<newline>code\<newline>\<newline>````\<newline>text\<newline>''
       = ''```py\<newline>\<newline>code\<newline>\<newline>````\<newline>\<newline>text\<newline>''"
  by code_simp

end
